theory Spec2Isabelle
  imports Main "HOL-Library.Multiset"
begin

section \<open>Values exchanged with the GitHub REST API\<close>

text \<open>
  \<open>response.json()\<close> returns a decoded JSON document. Objects are Python dicts; a dict is
  kept as the list of its items in insertion order (keys are distinct in a real dict, and
  lookup takes the first match). JSON numbers are restricted to integers: fractional
  numbers play no role in the fields the scrapper reads.
\<close>

datatype json =
    JNull
  | JBool bool
  | JInt int
  | JStr string
  | JList "json list"
  | JObj "(string \<times> json) list"

text \<open>The Python exceptions that can occur along the paths modelled here.\<close>

datatype exn =
    RequestError
  | AttributeError
  | TypeError
  | KeyError
  | IndexError
  | ValueError
  | InvalidStateError

text \<open>Truth value of an object, as tested by \<open>if\<close> and \<open>and\<close>.\<close>

fun truthy :: "json \<Rightarrow> bool" where
  "truthy JNull = False"
| "truthy (JBool b) = b"
| "truthy (JInt n) = (n \<noteq> 0)"
| "truthy (JStr s) = (s \<noteq> [])"
| "truthy (JList xs) = (xs \<noteq> [])"
| "truthy (JObj d) = (d \<noteq> [])"

text \<open>\<open>x.get(key, default)\<close>: only a dict has the method; the default is used only when
  the key is absent (a key stored with the value \<open>None\<close> yields \<open>None\<close>).\<close>

fun py_get :: "json \<Rightarrow> string \<Rightarrow> json \<Rightarrow> exn + json" where
  "py_get (JObj d) k dflt = Inr (case map_of d k of None \<Rightarrow> dflt | Some v \<Rightarrow> v)"
| "py_get _ k dflt = Inl AttributeError"

text \<open>\<open>x[key]\<close> with a string key: \<open>KeyError\<close> on a dict without the key,
  \<open>TypeError\<close> on every other JSON value.\<close>

fun py_getitem :: "json \<Rightarrow> string \<Rightarrow> exn + json" where
  "py_getitem (JObj d) k = (case map_of d k of None \<Rightarrow> Inl KeyError | Some v \<Rightarrow> Inr v)"
| "py_getitem _ k = Inl TypeError"

text \<open>Iteration (\<open>for x in v\<close>, \<open>enumerate(v, 1)\<close>): a list yields its elements, a dict its
  keys, a string its characters; the other values are not iterable.\<close>

fun py_iter :: "json \<Rightarrow> exn + json list" where
  "py_iter (JList xs) = Inr xs"
| "py_iter (JObj d) = Inr (map (\<lambda>kv. JStr (fst kv)) d)"
| "py_iter (JStr s) = Inr (map (\<lambda>c. JStr [c]) s)"
| "py_iter _ = Inl TypeError"

text \<open>Dict keys: lists and dicts are unhashable; \<open>True\<close> and \<open>1\<close> (and \<open>False\<close> and
  \<open>0\<close>) are equal with equal hashes, so they are one key. \<open>py_key\<close> maps a hashable value
  to the representative that decides key equality.\<close>

fun hashable :: "json \<Rightarrow> bool" where
  "hashable (JList xs) = False"
| "hashable (JObj d) = False"
| "hashable _ = True"

fun py_key :: "json \<Rightarrow> json" where
  "py_key (JBool b) = JInt (if b then 1 else 0)"
| "py_key v = v"

section \<open>Data classes of \<open>task2/main.py\<close>\<close>

text \<open>The annotations say \<open>str\<close> and \<open>int\<close>, but Python does not enforce them: the fields
  hold whatever the decoded response held, so they are JSON values here.\<close>

record RepositoryAuthorCommitsNum =
  author :: json
  commits_num :: int

record repo_data =
  name :: json
  owner :: json
  position :: int
  stars :: json
  watchers :: json
  forks :: json
  language :: json

record Repository = repo_data +
  authors_commits_num_today :: "RepositoryAuthorCommitsNum list"

section \<open>Counting commits by author\<close>

text \<open>\<open>author_commits[author_name] += 1\<close> on a \<open>defaultdict(int)\<close>: an absent key is
  inserted at the end with \<open>0\<close> and then incremented; a present key keeps its place
  (and its first-inserted key object).\<close>

fun incr :: "json \<Rightarrow> (json \<times> int) list \<Rightarrow> (json \<times> int) list" where
  "incr k [] = [(k, 0 + 1)]"
| "incr k ((k', c) # rest) =
     (if py_key k' = py_key k then (k', c + 1) # rest else (k', c) # incr k rest)"

text \<open>One iteration of the loop over \<open>commits\<close> (lines 110 to 113).\<close>

definition count_commit :: "json \<Rightarrow> (json \<times> int) list \<Rightarrow> exn + (json \<times> int) list" where
  "count_commit commit author_commits =
     (case py_get commit ''commit'' JNull of
        Inl e \<Rightarrow> Inl e
      | Inr c \<Rightarrow>
          if \<not> truthy c then Inr author_commits
          else (case py_get c ''author'' JNull of
                  Inl e \<Rightarrow> Inl e
                | Inr a \<Rightarrow>
                    if \<not> truthy a then Inr author_commits
                    else (case py_get a ''name'' (JStr ''Unknown'') of
                            Inl e \<Rightarrow> Inl e
                          | Inr author_name \<Rightarrow>
                              if hashable author_name
                              then Inr (incr author_name author_commits)
                              else Inl TypeError)))"

fun count_commits :: "json list \<Rightarrow> (json \<times> int) list \<Rightarrow> exn + (json \<times> int) list" where
  "count_commits [] author_commits = Inr author_commits"
| "count_commits (commit # rest) author_commits =
     (case count_commit commit author_commits of
        Inl e \<Rightarrow> Inl e
      | Inr author_commits' \<Rightarrow> count_commits rest author_commits')"

text \<open>The part of \<open>_get_repository_commits_count_by_author\<close> after the fetch: the loop
  from an empty \<open>defaultdict\<close>, then the list comprehension over \<open>items()\<close>.\<close>

definition commits_count_by_author :: "json list \<Rightarrow> exn + RepositoryAuthorCommitsNum list" where
  "commits_count_by_author commits =
     (case count_commits commits [] of
        Inl e \<Rightarrow> Inl e
      | Inr author_commits \<Rightarrow>
          Inr (map (\<lambda>(a, n). \<lparr>author = a, commits_num = n\<rparr>) author_commits))"

section \<open>Requests\<close>

text \<open>
  An outbound call is identified by what the scrapper asks for: the search for the top
  repositories with its page size, or the commits of \<open>repos/{owner}/{repo}/commits\<close> (the
  two components of the formatted endpoint are kept as they are). A transport gives the
  outcome of the guarded section of \<open>_make_request\<close> for a request: the decoded body, or
  the exception raised in it (an \<open>Exception\<close>; cancellation is not modelled). The
  semaphore and the rate limiter decide when a request goes out, not what it returns;
  they are modelled in the later sections. Every call is recorded in a log.
\<close>

datatype request =
    SearchRepositories int
  | RepoCommits json json

type_synonym transport = "request \<Rightarrow> exn + json"

definition make_request :: "transport \<Rightarrow> request \<Rightarrow> request list \<Rightarrow> (exn + json) \<times> request list" where
  "make_request tr req log = (tr req, log @ [req])"

definition get_top_repositories :: "transport \<Rightarrow> int \<Rightarrow> request list \<Rightarrow> (exn + json) \<times> request list" where
  "get_top_repositories tr limit log =
     (case make_request tr (SearchRepositories limit) log of
        (Inl e, log') \<Rightarrow> (Inl e, log')
      | (Inr data, log') \<Rightarrow> (py_getitem data ''items'', log'))"

text \<open>\<open>_get_repository_commits\<close>: the \<open>try\<close> block turns every exception of the request
  into the empty list, and a body that is not a list counts as empty too.\<close>

definition get_repository_commits :: "transport \<Rightarrow> json \<Rightarrow> json \<Rightarrow> request list \<Rightarrow> json list \<times> request list" where
  "get_repository_commits tr ow repo log =
     (case make_request tr (RepoCommits ow repo) log of
        (Inl e, log') \<Rightarrow> ([], log')
      | (Inr commits, log') \<Rightarrow> ((case commits of JList xs \<Rightarrow> xs | _ \<Rightarrow> []), log'))"

definition get_repository_commits_count_by_author ::
  "transport \<Rightarrow> json \<Rightarrow> json \<Rightarrow> request list \<Rightarrow> (exn + RepositoryAuthorCommitsNum list) \<times> request list" where
  "get_repository_commits_count_by_author tr ow repo log =
     (case get_repository_commits tr ow repo log of
        (commits, log') \<Rightarrow> (commits_count_by_author commits, log'))"

section \<open>\<open>asyncio.gather\<close> with \<open>return_exceptions=True\<close>\<close>

text \<open>
  The tasks complete in an order the event loop and the network decide. A schedule is a
  list of choices: at each step the choice (modulo the number of pending tasks, \<open>0\<close> once
  the list is used up) names the pending task that completes next, so every list is a
  schedule and every completion order has one. A completed task stores its outcome in
  its own future; \<open>gather\<close> returns once no task is pending and reads the futures in the
  order the tasks were passed. Reading a future that is not done raises
  \<open>InvalidStateError\<close>.
\<close>

function complete_all ::
  "('t \<Rightarrow> 's \<Rightarrow> (exn + 'a) \<times> 's) \<Rightarrow> nat list \<Rightarrow> (nat \<times> 't) list \<Rightarrow> (exn + 'a) option list \<Rightarrow> 's
     \<Rightarrow> (exn + 'a) option list \<times> 's" where
  "complete_all run sched [] futs s = (futs, s)"
| "complete_all run sched (p # ps) futs s =
     (let k = (case sched of [] \<Rightarrow> 0 | c # _ \<Rightarrow> c mod length (p # ps));
          (i, t) = (p # ps) ! k;
          (r, s') = run t s
      in complete_all run (tl sched) (take k (p # ps) @ drop (Suc k) (p # ps)) (futs[i := Some r]) s')"
  by pat_completeness auto
termination
proof (relation "measure (\<lambda>(run, sched, pending, futs, s). length pending)", goal_cases)
  case 1
  show ?case by simp
next
  case (2 run sched p ps futs s k x i t y r s')
  have "k < length (p # ps)"
    using 2(1) by (cases sched) simp_all
  then show ?case by simp
qed

declare complete_all.simps(2) [simp del]

definition future_result :: "(exn + 'a) option \<Rightarrow> exn + 'a" where
  "future_result f = (case f of None \<Rightarrow> Inl InvalidStateError | Some r \<Rightarrow> r)"

definition gather ::
  "('t \<Rightarrow> 's \<Rightarrow> (exn + 'a) \<times> 's) \<Rightarrow> nat list \<Rightarrow> 't list \<Rightarrow> 's \<Rightarrow> (exn + 'a) list \<times> 's" where
  "gather run sched tasks s =
     (case complete_all run sched (zip [0..<length tasks] tasks) (replicate (length tasks) None) s of
        (futs, s') \<Rightarrow> (map future_result futs, s'))"

section \<open>\<open>get_repositories\<close>\<close>

text \<open>The body of the first loop for one listed record (lines 128 to 139); \<open>pos\<close> is the
  counter of \<open>enumerate(top_repos, 1)\<close>.\<close>

definition repo_entry :: "int \<Rightarrow> json \<Rightarrow> exn + repo_data" where
  "repo_entry pos rd =
     (case py_get rd ''owner'' (JObj []) of
        Inl e \<Rightarrow> Inl e
      | Inr ow \<Rightarrow>
          (case py_get ow ''login'' (JStr []) of
             Inl e \<Rightarrow> Inl e
           | Inr login \<Rightarrow>
               (case (py_get rd ''name'' (JStr []), py_get rd ''stargazers_count'' (JInt 0),
                      py_get rd ''watchers_count'' (JInt 0), py_get rd ''forks_count'' (JInt 0),
                      py_get rd ''language'' (JStr ''Unknown'')) of
                  (Inr nm, Inr st, Inr wa, Inr fo, Inr la) \<Rightarrow>
                    Inr \<lparr>name = nm, owner = login, position = pos, stars = st, watchers = wa,
                         forks = fo, language = la\<rparr>
                | _ \<Rightarrow> Inl AttributeError)))"

fun build_repositories_data :: "int \<Rightarrow> json list \<Rightarrow> exn + repo_data list" where
  "build_repositories_data pos [] = Inr []"
| "build_repositories_data pos (rd # rest) =
     (case repo_entry pos rd of
        Inl e \<Rightarrow> Inl e
      | Inr d \<Rightarrow>
          (case build_repositories_data (pos + 1) rest of
             Inl e \<Rightarrow> Inl e
           | Inr ds \<Rightarrow> Inr (d # ds)))"

text \<open>The body of the second loop (lines 148 to 162): an exception among the gathered
  results is replaced by the empty list.\<close>

definition assemble :: "repo_data \<times> (exn + RepositoryAuthorCommitsNum list) \<Rightarrow> Repository" where
  "assemble p =
     (case p of (rd, commits_result) \<Rightarrow>
        \<lparr>name = name rd, owner = owner rd, position = position rd, stars = stars rd,
         watchers = watchers rd, forks = forks rd, language = language rd,
         authors_commits_num_today = (case commits_result of Inl e \<Rightarrow> [] | Inr r \<Rightarrow> r)\<rparr>)"

definition get_repositories ::
  "transport \<Rightarrow> nat list \<Rightarrow> int \<Rightarrow> request list \<Rightarrow> (exn + Repository list) \<times> request list" where
  "get_repositories tr sched limit log =
     (case get_top_repositories tr limit log of
        (Inl e, log1) \<Rightarrow> (Inl e, log1)
      | (Inr top_repos, log1) \<Rightarrow>
          (case py_iter top_repos of
             Inl e \<Rightarrow> (Inl e, log1)
           | Inr items \<Rightarrow>
               (case build_repositories_data 1 items of
                  Inl e \<Rightarrow> (Inl e, log1)
                | Inr repositories_data \<Rightarrow>
                    (case gather (\<lambda>(ow, nm). get_repository_commits_count_by_author tr ow nm) sched
                            (map (\<lambda>d. (owner d, name d)) repositories_data) log1 of
                       (commits_results, log2) \<Rightarrow>
                         (Inr (map assemble (zip repositories_data commits_results)), log2)))))"

section \<open>Notions used to state the properties of the aggregation\<close>

text \<open>
  The amended claim in its own words, independent of the loop: an event is counted when
  its \<open>commit\<close> member is an object that holds a non-empty \<open>author\<close> object; it is counted
  under the \<open>name\<close> of that object, or under \<open>Unknown\<close> when the object has no \<open>name\<close>
  key. Every other event (no \<open>commit\<close>, no \<open>author\<close>, or one of them \<open>null\<close> or empty) is
  skipped.
\<close>

fun member_of :: "json \<Rightarrow> string \<Rightarrow> json option" where
  "member_of (JObj d) k = map_of d k"
| "member_of _ k = None"

definition counted_as :: "json \<Rightarrow> json option" where
  "counted_as commit =
     (case member_of commit ''commit'' of
        None \<Rightarrow> None
      | Some c \<Rightarrow>
          (case member_of c ''author'' of
             Some (JObj (kv # a)) \<Rightarrow>
               Some (case map_of (kv # a) ''name'' of None \<Rightarrow> JStr ''Unknown'' | Some n \<Rightarrow> n)
           | _ \<Rightarrow> None))"

definition counted_authors :: "json list \<Rightarrow> json list" where
  "counted_authors commits = List.map_filter counted_as commits"

text \<open>First-seen order: each key at its first occurrence, later occurrences of an equal
  key removed.\<close>

fun first_seen :: "json list \<Rightarrow> json list" where
  "first_seen [] = []"
| "first_seen (a # as) = a # first_seen (filter (\<lambda>b. py_key b \<noteq> py_key a) as)"

definition py_distinct :: "json list \<Rightarrow> bool" where
  "py_distinct ks = distinct (map py_key ks)"

definition cnt :: "(json \<times> int) list \<Rightarrow> json \<Rightarrow> int" where
  "cnt acc k = sum_list (map snd (filter (\<lambda>p. py_key (fst p) = py_key k) acc))"

section \<open>An example run\<close>

text \<open>The listing returns the repositories A, B and C; the commit fetch for B fails, the
  fetches for A and C return three commits by two authors.\<close>

definition example_repo :: "string \<Rightarrow> json" where
  "example_repo n =
     JObj [(''name'', JStr n), (''owner'', JObj [(''login'', JStr ''o'')]),
           (''stargazers_count'', JInt 9), (''watchers_count'', JInt 8), (''forks_count'', JInt 7),
           (''language'', JStr ''C'')]"

definition example_commit :: "string \<Rightarrow> json" where
  "example_commit a = JObj [(''sha'', JStr ''s''), (''commit'', JObj [(''author'', JObj [(''name'', JStr a)])])]"

definition example_transport :: transport where
  "example_transport req =
     (case req of
        SearchRepositories n \<Rightarrow>
          Inr (JObj [(''total_count'', JInt 3),
                     (''items'', JList [example_repo ''A'', example_repo ''B'', example_repo ''C''])])
      | RepoCommits ow nm \<Rightarrow>
          if nm = JStr ''B'' then Inl RequestError
          else Inr (JList [example_commit ''x'', example_commit ''y'', example_commit ''x'']))"


definition example_batch :: "Repository list" where
  "example_batch =
     [\<lparr>name = JStr ''A'', owner = JStr ''o'', position = 1, stars = JInt 9,
          watchers = JInt 8, forks = JInt 7, language = JStr ''C'',
          authors_commits_num_today =
            [\<lparr>author = JStr ''x'', commits_num = 2\<rparr>,
             \<lparr>author = JStr ''y'', commits_num = 1\<rparr>]\<rparr>,
       \<lparr>name = JStr ''B'', owner = JStr ''o'', position = 2, stars = JInt 9,
          watchers = JInt 8, forks = JInt 7, language = JStr ''C'',
          authors_commits_num_today = []\<rparr>,
       \<lparr>name = JStr ''C'', owner = JStr ''o'', position = 3, stars = JInt 9,
          watchers = JInt 8, forks = JInt 7, language = JStr ''C'',
          authors_commits_num_today =
            [\<lparr>author = JStr ''x'', commits_num = 2\<rparr>,
             \<lparr>author = JStr ''y'', commits_num = 1\<rparr>]\<rparr>]"

section \<open>\<open>RateLimiter\<close>\<close>

text \<open>
  Time is counted in microseconds, the resolution of \<open>datetime\<close>: \<open>now - req_time <
  timedelta(seconds=1)\<close> is an exact comparison of microsecond counts. \<open>requests\<close> is the
  list of admission timestamps.
\<close>

record RateLimiter =
  max_requests_per_second :: int
  requests :: "int list"

definition RateLimiter_init :: "int \<Rightarrow> RateLimiter" where
  "RateLimiter_init n = \<lparr>max_requests_per_second = n, requests = []\<rparr>"

text \<open>The list comprehension of lines 51 and 60.\<close>

definition prune :: "int \<Rightarrow> int list \<Rightarrow> int list" where
  "prune now rs = filter (\<lambda>req_time. now - req_time < 1000000) rs"

text \<open>The duration of line 55: \<open>1.0\<close> second less the age of the oldest kept entry, here
  in exact microseconds.\<close>

definition sleep_time :: "int \<Rightarrow> int \<Rightarrow> int" where
  "sleep_time now oldest = 1000000 - (now - oldest)"

text \<open>
  \<open>acquire\<close> runs under the lock, so calls do not interleave. The clock is read at line
  49 (\<open>now\<close>) and, when the limit is reached, again at line 59 (\<open>now'\<close>). Between the two
  readings the call sleeps for \<open>sleep_time\<close> when that is positive (lines 56 and 57), so
  the second reading is the first plus the sleep plus \<open>late\<close>: the time by which the clock
  is ahead of the end of the requested sleep. \<open>late\<close> is an input; it is zero or more when
  the clock does not go back and the sleep is not cut short, and negative otherwise. The
  result is the timestamp appended, or \<open>IndexError\<close> from \<open>self.requests[0]\<close> on an empty
  list, which leaves the pruned list behind.
\<close>

definition acquire :: "RateLimiter \<Rightarrow> int \<Rightarrow> int \<Rightarrow> (exn + int) \<times> RateLimiter" where
  "acquire rl now late =
     (let rs = prune now (requests rl) in
      if max_requests_per_second rl \<le> int (length rs) then
        (case rs of
           [] \<Rightarrow> (Inl IndexError, rl\<lparr>requests := rs\<rparr>)
         | oldest # _ \<Rightarrow>
             (let now' = now + (if 0 < sleep_time now oldest then sleep_time now oldest else 0) + late
              in (Inr now', rl\<lparr>requests := prune now' rs @ [now']\<rparr>)))
      else (Inr now, rl\<lparr>requests := rs @ [now]\<rparr>))"

text \<open>
  A sequence of calls. \<open>clock\<close> is the last reading of the clock; each call comes with the
  time \<open>gap\<close> from that reading to its own first reading, and with its \<open>late\<close>. The result
  is the list of the admission timestamps, in order.
\<close>

fun admissions :: "RateLimiter \<Rightarrow> int \<Rightarrow> (int \<times> int) list \<Rightarrow> int list" where
  "admissions rl clock [] = []"
| "admissions rl clock ((gap, late) # calls) =
     (case acquire rl (clock + gap) late of
        (Inl e, rl') \<Rightarrow> admissions rl' (clock + gap) calls
      | (Inr t, rl') \<Rightarrow> t # admissions rl' t calls)"

text \<open>What the rate property needs of the clock: it never goes back, and no sleep is cut
  short.\<close>

definition steady_clock :: "(int \<times> int) list \<Rightarrow> bool" where
  "steady_clock calls = list_all (\<lambda>(gap, late). 0 \<le> gap \<and> 0 \<le> late) calls"

text \<open>
  The sliding-window algorithm in the words of the specification, over the whole history
  of admissions, which is never pruned: a call that finds fewer than \<open>n\<close> admissions
  younger than one second is admitted at once; otherwise it waits one second less the age
  of the oldest of them, when that is positive, and is admitted at the reading after the
  wait. With no such admission to wait for (\<open>n \<le> 0\<close>) the call is not admitted.
\<close>

fun sliding_window_admissions :: "int \<Rightarrow> int list \<Rightarrow> int \<Rightarrow> (int \<times> int) list \<Rightarrow> int list" where
  "sliding_window_admissions n history clock [] = []"
| "sliding_window_admissions n history clock ((gap, late) # calls) =
     (let now = clock + gap;
          recent = filter (\<lambda>a. now - a < 1000000) history
      in if n \<le> int (length recent) then
           (case recent of
              [] \<Rightarrow> sliding_window_admissions n history now calls
            | oldest # _ \<Rightarrow>
                (let t = now + max 0 (1000000 - (now - oldest)) + late
                 in t # sliding_window_admissions n (history @ [t]) t calls))
         else now # sliding_window_admissions n (history @ [now]) now calls)"

text \<open>The admissions in the trailing one-second window that ends at \<open>T\<close>.\<close>

definition window :: "int \<Rightarrow> int list \<Rightarrow> int list" where
  "window T as = filter (\<lambda>a. T - a < 1000000 \<and> a \<le> T) as"

section \<open>The concurrency gate of \<open>_make_request\<close>\<close>

text \<open>
  Each call of \<open>_make_request\<close> goes through four phases: waiting at \<open>async with
  self._semaphore\<close> (line 77); holding a slot while it awaits
  \<open>self._rate_limiter.acquire()\<close> (line 78); in transport, inside \<open>self._session.request\<close>
  (lines 79 and 80); finished, after the \<open>async with\<close> of line 77 has released the slot.
  The block of line 77 is left in three ways, and each releases: \<open>acquire\<close> raises, the
  transport returns the decoded body, the transport or the decoding raises. The semaphore
  is its counter: acquiring needs a positive value and decrements it, releasing increments
  it. An event that is not enabled leaves the state as it is (the task stays suspended).
\<close>

datatype phase = Waiting | Holding | InTransport | Finished

record gate =
  sem_value :: nat
  phases :: "phase list"

datatype event =
    Enter nat
  | Admit nat
  | LimiterRaises nat
  | TransportReturns nat
  | TransportRaises nat

fun step :: "gate \<Rightarrow> event \<Rightarrow> gate" where
  "step g (Enter i) =
     (if i < length (phases g) \<and> phases g ! i = Waiting \<and> 0 < sem_value g
      then g\<lparr>sem_value := sem_value g - 1, phases := (phases g)[i := Holding]\<rparr> else g)"
| "step g (Admit i) =
     (if i < length (phases g) \<and> phases g ! i = Holding
      then g\<lparr>phases := (phases g)[i := InTransport]\<rparr> else g)"
| "step g (LimiterRaises i) =
     (if i < length (phases g) \<and> phases g ! i = Holding
      then g\<lparr>sem_value := sem_value g + 1, phases := (phases g)[i := Finished]\<rparr> else g)"
| "step g (TransportReturns i) =
     (if i < length (phases g) \<and> phases g ! i = InTransport
      then g\<lparr>sem_value := sem_value g + 1, phases := (phases g)[i := Finished]\<rparr> else g)"
| "step g (TransportRaises i) =
     (if i < length (phases g) \<and> phases g ! i = InTransport
      then g\<lparr>sem_value := sem_value g + 1, phases := (phases g)[i := Finished]\<rparr> else g)"

definition start :: "nat \<Rightarrow> nat \<Rightarrow> gate" where
  "start max_concurrent_requests n = \<lparr>sem_value = max_concurrent_requests, phases = replicate n Waiting\<rparr>"

definition run_events :: "gate \<Rightarrow> event list \<Rightarrow> gate" where
  "run_events g evs = foldl step g evs"

definition in_phase :: "phase \<Rightarrow> gate \<Rightarrow> nat" where
  "in_phase p g = length (filter (\<lambda>q. q = p) (phases g))"

section \<open>Construction\<close>

text \<open>
  \<open>GithubReposScrapper.__init__\<close> builds the session, \<open>asyncio.Semaphore(max_concurrent_requests)\<close>
  and \<open>RateLimiter(requests_per_second)\<close>. The semaphore's constructor raises \<open>ValueError\<close>
  for a negative value; nothing else is checked, and no request is made.
\<close>

record GithubReposScrapper =
  authorization :: string
  semaphore :: nat
  rate_limiter :: RateLimiter

definition Semaphore_init :: "int \<Rightarrow> exn + nat" where
  "Semaphore_init v = (if v < 0 then Inl ValueError else Inr (nat v))"

definition GithubReposScrapper_init :: "string \<Rightarrow> int \<Rightarrow> int \<Rightarrow> exn + GithubReposScrapper" where
  "GithubReposScrapper_init access_token max_concurrent_requests requests_per_second =
     (case Semaphore_init max_concurrent_requests of
        Inl e \<Rightarrow> Inl e
      | Inr sem \<Rightarrow>
          Inr \<lparr>authorization = ''Bearer '' @ access_token, semaphore = sem,
               rate_limiter = RateLimiter_init requests_per_second\<rparr>)"


section \<open>Properties of the commit aggregation\<close>

lemma count_commit_incr:
  assumes "count_commit commit acc = Inr acc'"
  shows "acc' = (case counted_as commit of None \<Rightarrow> acc | Some a \<Rightarrow> incr a acc)"
proof (cases commit)
  case (JObj d)
  show ?thesis
  proof (cases "map_of d ''commit''")
    case None
    with JObj assms show ?thesis by (simp add: count_commit_def counted_as_def)
  next
    case (Some c)
    show ?thesis
    proof (cases "truthy c")
      case False
      with JObj Some assms show ?thesis
        by (cases c) (simp_all add: count_commit_def counted_as_def)
    next
      case True
      with JObj Some assms obtain dc where c: "c = JObj dc"
        by (cases c) (simp_all add: count_commit_def)
      show ?thesis
      proof (cases "map_of dc ''author''")
        case None
        with JObj Some c assms show ?thesis
          by (simp add: count_commit_def counted_as_def split: if_splits)
      next
        case a: (Some a)
        show ?thesis
        proof (cases "truthy a")
          case False
          with JObj Some c a assms show ?thesis
            by (cases a) (simp_all add: count_commit_def counted_as_def split: if_splits)
        next
          case ta: True
          with JObj Some c a True assms obtain da where da: "a = JObj da"
            by (cases a) (simp_all add: count_commit_def)
          with ta obtain kv rest where kv: "da = kv # rest" by (cases da) simp_all
          from JObj Some c a da kv True assms show ?thesis
            by (auto simp: count_commit_def counted_as_def split: option.splits if_splits)
        qed
      qed
    qed
  qed
qed (use assms in \<open>simp_all add: count_commit_def\<close>)

lemma count_commits_fold:
  "count_commits commits acc = Inr acc' \<Longrightarrow> acc' = fold incr (counted_authors commits) acc"
proof (induction commits arbitrary: acc)
  case Nil
  then show ?case by (simp add: counted_authors_def map_filter_simps)
next
  case (Cons c cs)
  then show ?case
    by (auto simp: counted_authors_def map_filter_simps dest!: count_commit_incr split: sum.splits option.splits)
qed

lemma keys_incr:
  "map fst (incr k acc) =
     (if \<exists>p\<in>set acc. py_key (fst p) = py_key k then map fst acc else map fst acc @ [k])"
proof (induction acc)
  case Nil
  show ?case by simp
next
  case (Cons p acc)
  obtain k' c where p: "p = (k', c)" by (cases p)
  show ?case
  proof (cases "py_key k' = py_key k")
    case True
    with p show ?thesis by simp
  next
    case False
    with p Cons.IH show ?thesis by simp
  qed
qed

lemma first_seen_absorb:
  "\<exists>x\<in>set xs. py_key x = py_key k \<Longrightarrow> first_seen (xs @ k # ks) = first_seen (xs @ ks)"
proof (induction xs arbitrary: ks rule: first_seen.induct)
  case 1
  then show ?case by simp
next
  case (2 a as)
  show ?case
  proof (cases "py_key k = py_key a")
    case True
    then show ?thesis by simp
  next
    case False
    with 2(2) have "\<exists>x\<in>set (filter (\<lambda>b. py_key b \<noteq> py_key a) as). py_key x = py_key k"
      by auto
    from 2(1)[OF this] False show ?thesis by simp
  qed
qed

lemma first_seen_distinct: "py_distinct xs \<Longrightarrow> first_seen xs = xs"
proof (induction xs rule: first_seen.induct)
  case 1
  then show ?case by simp
next
  case (2 a as)
  have "filter (\<lambda>b. py_key b \<noteq> py_key a) as = as"
    using 2(2) by (auto simp: py_distinct_def filter_id_conv image_iff)
  with 2 show ?case by (simp add: py_distinct_def)
qed

lemma py_distinct_incr: "py_distinct (map fst acc) \<Longrightarrow> py_distinct (map fst (incr k acc))"
  by (auto simp: keys_incr py_distinct_def)

lemma py_distinct_fold: "py_distinct (map fst acc) \<Longrightarrow> py_distinct (map fst (fold incr ks acc))"
  by (induction ks arbitrary: acc) (auto intro: py_distinct_incr)

lemma first_seen_fold:
  "py_distinct (map fst acc) \<Longrightarrow> first_seen (map fst acc @ ks) = map fst (fold incr ks acc)"
proof (induction ks arbitrary: acc)
  case Nil
  then show ?case by (simp add: first_seen_distinct)
next
  case (Cons k ks)
  have "first_seen (map fst acc @ k # ks) = first_seen (map fst (incr k acc) @ ks)"
  proof (cases "\<exists>p\<in>set acc. py_key (fst p) = py_key k")
    case True
    then have "\<exists>x\<in>set (map fst acc). py_key x = py_key k" by simp
    from first_seen_absorb[OF this] True show ?thesis by (simp add: keys_incr)
  next
    case False
    then show ?thesis by (simp add: keys_incr)
  qed
  also have "\<dots> = map fst (fold incr ks (incr k acc))"
    using Cons.IH[OF py_distinct_incr[OF Cons.prems]] .
  finally show ?case by simp
qed

lemma cnt_incr: "cnt (incr k acc) k' = cnt acc k' + (if py_key k = py_key k' then 1 else 0)"
  by (induction acc) (auto simp: cnt_def)

lemma cnt_fold:
  "cnt (fold incr ks acc) k' = cnt acc k' + int (length (filter (\<lambda>a. py_key a = py_key k') ks))"
  by (induction ks arbitrary: acc) (auto simp: cnt_incr)

lemma cnt_member:
  "py_distinct (map fst acc) \<Longrightarrow> (k, c) \<in> set acc \<Longrightarrow> cnt acc k = c"
proof (induction acc)
  case Nil
  then show ?case by simp
next
  case (Cons p acc)
  have none: "filter (\<lambda>q. py_key (fst q) = py_key k') acc = []"
    if "\<forall>p\<in>set acc. py_key (fst p) \<noteq> py_key k'" for k' :: json and acc :: "(json \<times> int) list"
    using that by (induction acc) auto
  show ?case
  proof (cases "p = (k, c)")
    case True
    have "\<forall>p\<in>set acc. py_key (fst p) \<noteq> py_key k"
      using Cons.prems(1) True by (force simp: py_distinct_def image_iff)
    from none[OF this] True show ?thesis
      by (simp add: cnt_def)
  next
    case False
    with Cons.prems have mem: "(k, c) \<in> set acc" and d: "py_distinct (map fst acc)"
      by (auto simp: py_distinct_def)
    have "py_key (fst p) \<noteq> py_key k"
      using Cons.prems(1) mem by (force simp: py_distinct_def image_iff)
    with Cons.IH[OF d mem] show ?thesis by (simp add: cnt_def)
  qed
qed

lemma sum_incr: "sum_list (map snd (incr k acc)) = sum_list (map snd acc) + 1"
  by (induction acc) auto

lemma sum_fold: "sum_list (map snd (fold incr ks acc)) = sum_list (map snd acc) + int (length ks)"
  by (induction ks arbitrary: acc) (auto simp: sum_incr)

lemma pos_incr: "\<forall>p\<in>set acc. 1 \<le> snd p \<Longrightarrow> \<forall>p\<in>set (incr k acc). 1 \<le> snd p"
  by (induction acc) (force split: if_splits)+

lemma pos_count_commit:
  "count_commit commit acc = Inr acc' \<Longrightarrow> \<forall>p\<in>set acc. 1 \<le> snd p \<Longrightarrow> \<forall>p\<in>set acc'. 1 \<le> snd p"
  using pos_incr by (auto simp: count_commit_def split: sum.splits if_splits)

lemma pos_fold: "\<forall>p\<in>set acc. 1 \<le> snd p \<Longrightarrow> \<forall>p\<in>set (fold incr ks acc). 1 \<le> snd p"
  by (induction ks arbitrary: acc) (auto dest: pos_incr)

lemma commits_count_by_author_fold:
  assumes "commits_count_by_author commits = Inr out"
  shows "out = map (\<lambda>(a, n). \<lparr>author = a, commits_num = n\<rparr>) (fold incr (counted_authors commits) [])"
  using assms count_commits_fold[of commits "[]"]
  by (auto simp: commits_count_by_author_def split: sum.splits)

text \<open>
  C6, as the code has it. The events counted are those that \<open>counted_as\<close> names: the
  \<open>commit\<close> member is an object holding a non-empty \<open>author\<close> object; such an event is
  counted once, under the \<open>name\<close> of its author object, or under \<open>Unknown\<close> when that
  object has no \<open>name\<close> key; every other event is skipped. Whenever the aggregation
  completes, the authors of the output are the authors of the counted events in
  first-seen order, the count of an author is the number of counted events of that
  author, and the counts add up to the number of counted events.
\<close>

theorem aggregation_counts_guarded_events:
  assumes "commits_count_by_author commits = Inr out"
  shows "map author out = first_seen (counted_authors commits)
       \<and> (\<forall>r\<in>set out. commits_num r =
             int (length (filter (\<lambda>a. py_key a = py_key (author r)) (counted_authors commits))))
       \<and> sum_list (map commits_num out) = int (length (counted_authors commits))"
proof -
  define acc where "acc = fold incr (counted_authors commits) []"
  have out: "out = map (\<lambda>(a, n). \<lparr>author = a, commits_num = n\<rparr>) acc"
    unfolding acc_def by (rule commits_count_by_author_fold[OF assms])
  have a: "map author out = map fst acc"
    by (simp add: out case_prod_beta)
  have n: "map commits_num out = map snd acc"
    by (simp add: out case_prod_beta)
  have d: "py_distinct (map fst acc)"
    unfolding acc_def by (rule py_distinct_fold) (simp add: py_distinct_def)
  have 1: "map author out = first_seen (counted_authors commits)"
    using first_seen_fold[of "[]" "counted_authors commits"]
    by (simp add: a acc_def py_distinct_def)
  have 2: "commits_num r =
      int (length (filter (\<lambda>a. py_key a = py_key (author r)) (counted_authors commits)))"
    if "r \<in> set out" for r
  proof -
    from that obtain k c where kc: "(k, c) \<in> set acc" and r: "r = \<lparr>author = k, commits_num = c\<rparr>"
      by (auto simp: out)
    have "cnt acc k = c" by (rule cnt_member[OF d kc])
    then show ?thesis
      using cnt_fold[of "counted_authors commits" "[]" k]
      by (simp add: r acc_def cnt_def)
  qed
  have 3: "sum_list (map commits_num out) = int (length (counted_authors commits))"
    using sum_fold[of "counted_authors commits" "[]"] by (simp add: n acc_def)
  from 1 2 3 show ?thesis by blast
qed

text \<open>
  C10. Every count produced by the aggregation is at least \<open>1\<close>, and the authors of one
  output are pairwise distinct, also as Python compares dict keys.
\<close>

theorem author_counts_positive_and_distinct:
  assumes "commits_count_by_author commits = Inr out"
  shows "(\<forall>r\<in>set out. 1 \<le> commits_num r)
       \<and> distinct (map (\<lambda>r. py_key (author r)) out)
       \<and> distinct (map author out)"
proof -
  define acc where "acc = fold incr (counted_authors commits) []"
  have out: "out = map (\<lambda>(a, n). \<lparr>author = a, commits_num = n\<rparr>) acc"
    unfolding acc_def by (rule commits_count_by_author_fold[OF assms])
  have "py_distinct (map fst acc)"
    unfolding acc_def by (rule py_distinct_fold) (simp add: py_distinct_def)
  then have d: "distinct (map (\<lambda>r. py_key (author r)) out)"
    by (simp add: out py_distinct_def case_prod_beta comp_def)
  then have d': "distinct (map author out)"
    using distinct_map[of py_key "map author out"] by (simp add: comp_def)
  have "\<forall>p\<in>set acc. 1 \<le> snd p"
    unfolding acc_def by (rule pos_fold) simp
  then have "\<forall>r\<in>set out. 1 \<le> commits_num r"
    by (auto simp: out)
  with d d' show ?thesis by blast
qed

text \<open>
  C6 as stated fails: an event without author identity (\<open>commit.author\<close> is \<open>null\<close>) is
  dropped, it is not counted under \<open>Unknown\<close>.
\<close>

theorem aggregation_drops_event_without_author:
  "commits_count_by_author
     [JObj [(''sha'', JStr ''a1''), (''commit'', JObj [(''message'', JStr ''m''), (''author'', JNull)])]]
   = Inr []
   \<and> commits_count_by_author
     [JObj [(''sha'', JStr ''a1''), (''commit'', JObj [(''message'', JStr ''m''), (''author'', JNull)])]]
   \<noteq> Inr [\<lparr>author = JStr ''Unknown'', commits_num = 1\<rparr>]"
  by (simp add: commits_count_by_author_def count_commit_def)

theorem aggregation_counts_guarded_events_witness:
  "commits_count_by_author
     [JObj [(''commit'', JObj [(''author'', JObj [(''name'', JStr ''x'')])])],
      JObj [(''commit'', JObj [(''author'', JNull)])],
      JObj [(''commit'', JObj [(''author'', JObj [(''email'', JStr ''e'')])])],
      JObj [(''commit'', JObj [(''author'', JObj [(''name'', JStr ''x'')])])]]
   = Inr [\<lparr>author = JStr ''x'', commits_num = 2\<rparr>, \<lparr>author = JStr ''Unknown'', commits_num = 1\<rparr>]
   \<and> counted_authors
     [JObj [(''commit'', JObj [(''author'', JObj [(''name'', JStr ''x'')])])],
      JObj [(''commit'', JObj [(''author'', JNull)])],
      JObj [(''commit'', JObj [(''author'', JObj [(''email'', JStr ''e'')])])],
      JObj [(''commit'', JObj [(''author'', JObj [(''name'', JStr ''x'')])])]]
   = [JStr ''x'', JStr ''Unknown'', JStr ''x'']
   \<and> first_seen [JStr ''x'', JStr ''Unknown'', JStr ''x''] = [JStr ''x'', JStr ''Unknown'']
   \<and> sum_list (map commits_num
         [\<lparr>author = JStr ''x'', commits_num = 2\<rparr>, \<lparr>author = JStr ''Unknown'', commits_num = 1\<rparr>]) = 3"
proof -
  let ?commits = "[JObj [(''commit'', JObj [(''author'', JObj [(''name'', JStr ''x'')])])],
      JObj [(''commit'', JObj [(''author'', JNull)])],
      JObj [(''commit'', JObj [(''author'', JObj [(''email'', JStr ''e'')])])],
      JObj [(''commit'', JObj [(''author'', JObj [(''name'', JStr ''x'')])])]]"
  have h: "commits_count_by_author ?commits =
      Inr [\<lparr>author = JStr ''x'', commits_num = 2\<rparr>, \<lparr>author = JStr ''Unknown'', commits_num = 1\<rparr>]"
    by (simp add: commits_count_by_author_def count_commit_def)
  have c: "counted_authors ?commits = [JStr ''x'', JStr ''Unknown'', JStr ''x'']"
    by (simp add: counted_authors_def counted_as_def map_filter_simps)
  from aggregation_counts_guarded_events[OF h] h c show ?thesis by simp
qed

theorem author_counts_positive_and_distinct_witness:
  "commits_count_by_author
     [JObj [(''commit'', JObj [(''author'', JObj [(''name'', JStr ''x'')])])],
      JObj [(''commit'', JObj [(''author'', JObj [(''name'', JStr ''y'')])])],
      JObj [(''commit'', JObj [(''author'', JObj [(''name'', JStr ''x'')])])]]
   = Inr [\<lparr>author = JStr ''x'', commits_num = 2\<rparr>, \<lparr>author = JStr ''y'', commits_num = 1\<rparr>]
   \<and> (1::int) \<le> 2 \<and> (1::int) \<le> 1 \<and> JStr ''x'' \<noteq> JStr ''y''"
proof -
  have h: "commits_count_by_author
     [JObj [(''commit'', JObj [(''author'', JObj [(''name'', JStr ''x'')])])],
      JObj [(''commit'', JObj [(''author'', JObj [(''name'', JStr ''y'')])])],
      JObj [(''commit'', JObj [(''author'', JObj [(''name'', JStr ''x'')])])]]
   = Inr [\<lparr>author = JStr ''x'', commits_num = 2\<rparr>, \<lparr>author = JStr ''y'', commits_num = 1\<rparr>]"
    by (simp add: commits_count_by_author_def count_commit_def)
  from author_counts_positive_and_distinct[OF h] h show ?thesis by simp
qed

section \<open>The results of \<open>gather\<close> do not depend on the completion order\<close>

lemma map_of_remove_nth:
  assumes d: "distinct (map fst xs)" and k: "k < length xs" and x: "xs ! k = (i, t)"
  shows "map_of (take k xs @ drop (Suc k) xs) = (map_of xs)(i := None)"
    and "map_of xs i = Some t"
    and "distinct (map fst (take k xs @ drop (Suc k) xs))"
    and "set (take k xs @ drop (Suc k) xs) \<subseteq> set xs"
proof -
  have xs: "xs = take k xs @ (i, t) # drop (Suc k) xs"
    using id_take_nth_drop[OF k] x by simp
  define A B where "A = take k xs" and "B = drop (Suc k) xs"
  have xs': "xs = A @ (i, t) # B" using xs by (simp add: A_def B_def)
  from d have dA: "distinct (map fst A)" and dB: "distinct (map fst B)"
    and iA: "i \<notin> fst ` set A" and iB: "i \<notin> fst ` set B"
    and AB: "fst ` set A \<inter> fst ` set B = {}"
    unfolding xs' by auto
  have nA: "map_of A i = None" and nB: "map_of B i = None"
    using iA iB by (simp_all add: map_of_eq_None_iff)
  show "map_of (take k xs @ drop (Suc k) xs) = (map_of xs)(i := None)"
  proof -
    have "map_of xs = map_of (A @ (i, t) # B)" using xs' by simp
    then show ?thesis
      unfolding A_def[symmetric] B_def[symmetric]
      by (auto simp: fun_eq_iff map_add_def nA nB split: option.splits)
  qed
  show "map_of xs i = Some t"
  proof -
    have "map_of xs = map_of (A @ (i, t) # B)" using xs' by simp
    then show ?thesis by (simp add: map_add_def nA)
  qed
  show "distinct (map fst (take k xs @ drop (Suc k) xs))"
    unfolding A_def[symmetric] B_def[symmetric] using dA dB AB by auto
  show "set (take k xs @ drop (Suc k) xs) \<subseteq> set xs"
    by (auto dest: in_set_takeD in_set_dropD)
qed

lemma complete_all_futs:
  "\<forall>t s. fst (run t s) = f t \<Longrightarrow>
   distinct (map fst pending) \<Longrightarrow> \<forall>p\<in>set pending. fst p < length futs \<Longrightarrow>
     fst (complete_all run sched pending futs s) =
       map (\<lambda>j. case map_of pending j of None \<Rightarrow> futs ! j | Some t \<Rightarrow> Some (f t)) [0..<length futs]"
proof (induction run sched pending futs s rule: complete_all.induct)
  case (1 run sched futs s)
  show ?case by (simp add: map_nth)
next
  case (2 run sched p ps futs s)
  define pending where "pending = p # ps"
  define k where "k = (case sched of [] \<Rightarrow> 0 | c # _ \<Rightarrow> c mod length (p # ps))"
  have k: "k < length pending"
    unfolding k_def pending_def by (cases sched) simp_all
  obtain i t where it: "(p # ps) ! k = (i, t)" by (cases "(p # ps) ! k")
  obtain r s' where rs: "run t s = (r, s')" by (cases "run t s")
  have r: "r = f t" using "2.prems"(1) rs by (metis fst_conv)
  define pending' where "pending' = take k (p # ps) @ drop (Suc k) (p # ps)"
  note rm = map_of_remove_nth[OF "2.prems"(2) k[unfolded pending_def] it, folded pending'_def pending_def]
  have i: "i < length futs"
    using "2.prems"(3) nth_mem[OF k[unfolded pending_def]] it by force
  have bound: "\<forall>q\<in>set pending'. fst q < length (futs[i := Some r])"
    using "2.prems"(3) rm(4) by (auto simp: pending_def)
  have IH: "fst (complete_all run (tl sched) pending' (futs[i := Some r]) s') =
       map (\<lambda>j. case map_of pending' j of None \<Rightarrow> futs[i := Some r] ! j | Some t \<Rightarrow> Some (f t))
         [0..<length (futs[i := Some r])]"
    using "2.IH"[OF k_def refl it[symmetric] refl rs[symmetric] "2.prems"(1), folded pending'_def]
      rm(3) bound
    by simp
  have unfold: "complete_all run sched (p # ps) futs s =
      complete_all run (tl sched) pending' (futs[i := Some r]) s'"
    by (subst complete_all.simps(2)) (simp only: Let_def k_def[symmetric] it rs prod.case pending'_def)
  have eq: "(case map_of pending' j of None \<Rightarrow> futs[i := Some r] ! j | Some t \<Rightarrow> Some (f t)) =
            (case map_of pending j of None \<Rightarrow> futs ! j | Some t \<Rightarrow> Some (f t))"
    if "j < length futs" for j
    using that i by (cases "j = i") (simp_all add: rm(1) rm(2) r split: option.splits)
  have "fst (complete_all run sched (p # ps) futs s) =
      map (\<lambda>j. case map_of pending' j of None \<Rightarrow> futs[i := Some r] ! j | Some t \<Rightarrow> Some (f t))
        [0..<length futs]"
    using unfold IH by simp
  also have "\<dots> = map (\<lambda>j. case map_of pending j of None \<Rightarrow> futs ! j | Some t \<Rightarrow> Some (f t))
        [0..<length futs]"
    by (rule map_cong) (simp_all add: eq)
  finally show ?case unfolding pending_def .
qed

lemma gather_results:
  assumes det: "\<And>t s. fst (run t s) = f t"
  shows "fst (gather run sched tasks s) = map f tasks"
proof -
  let ?n = "length tasks"
  have m: "map_of (zip [0..<?n] tasks) j = Some (tasks ! j)" if "j < ?n" for j
    using that map_of_zip_nth[of "[0..<?n]" tasks j] by simp
  have "fst (complete_all run sched (zip [0..<?n] tasks) (replicate ?n None) s) =
       map (\<lambda>j. case map_of (zip [0..<?n] tasks) j of None \<Rightarrow> replicate ?n None ! j | Some t \<Rightarrow> Some (f t)) [0..<length (replicate ?n (None :: (exn + 'c) option))]"
    by (rule complete_all_futs) (auto simp: det dest: set_zip_leftD)
  also have "\<dots> = map (\<lambda>j. Some (f (tasks ! j))) [0..<?n]"
    by (simp add: m)
  also have "\<dots> = map (\<lambda>t. Some (f t)) tasks"
    by (rule nth_equalityI) simp_all
  finally have "fst (complete_all run sched (zip [0..<?n] tasks) (replicate ?n None) s) = map (\<lambda>t. Some (f t)) tasks" .
  then show ?thesis
    by (cases "complete_all run sched (zip [0..<?n] tasks) (replicate ?n None) s")
       (simp add: gather_def future_result_def comp_def)
qed


section \<open>The request log and the results of the fan-out\<close>

lemma complete_all_log:
  "\<forall>t s. snd (run t s) = s @ [g t] \<Longrightarrow>
     mset (snd (complete_all run sched pending futs s)) = mset s + mset (map (\<lambda>p. g (snd p)) pending)"
proof (induction run sched pending futs s rule: complete_all.induct)
  case (1 run sched futs s)
  show ?case by simp
next
  case (2 run sched p ps futs s)
  define k where "k = (case sched of [] \<Rightarrow> 0 | c # _ \<Rightarrow> c mod length (p # ps))"
  have k: "k < length (p # ps)"
    unfolding k_def by (cases sched) simp_all
  obtain i t where it: "(p # ps) ! k = (i, t)" by (cases "(p # ps) ! k")
  obtain r s' where rs: "run t s = (r, s')" by (cases "run t s")
  have s': "s' = s @ [g t]" using "2.prems" rs by (metis snd_conv)
  define pending' where "pending' = take k (p # ps) @ drop (Suc k) (p # ps)"
  have split: "p # ps = take k (p # ps) @ (i, t) # drop (Suc k) (p # ps)"
    using id_take_nth_drop[OF k] it by simp
  have m: "mset (map (\<lambda>p. g (snd p)) (p # ps)) = mset (map (\<lambda>p. g (snd p)) pending') + {#g t#}"
    by (subst split) (simp add: pending'_def)
  have unfold: "complete_all run sched (p # ps) futs s =
      complete_all run (tl sched) pending' (futs[i := Some r]) s'"
    by (subst complete_all.simps(2)) (simp only: Let_def k_def[symmetric] it rs prod.case pending'_def)
  have "mset (snd (complete_all run (tl sched) pending' (futs[i := Some r]) s')) =
      mset s' + mset (map (\<lambda>p. g (snd p)) pending')"
    using "2.IH"[OF k_def refl it[symmetric] refl rs[symmetric] "2.prems", folded pending'_def] .
  then show ?case
    unfolding unfold m by (simp add: s')
qed

lemma gather_log:
  assumes "\<And>t s. snd (run t s) = s @ [g t]"
  shows "mset (snd (gather run sched tasks s)) = mset s + mset (map g tasks)"
proof -
  have "map (\<lambda>p. g (snd p)) (zip [0..<length tasks] tasks) = map g tasks"
    by (rule nth_equalityI) simp_all
  then show ?thesis
    using complete_all_log[of run g sched "zip [0..<length tasks] tasks" "replicate (length tasks) None" s] assms
    by (cases "complete_all run sched (zip [0..<length tasks] tasks) (replicate (length tasks) None) s")
       (simp add: gather_def)
qed

lemma task_fst:
  "fst (get_repository_commits_count_by_author tr ow nm log) =
   fst (get_repository_commits_count_by_author tr ow nm [])"
  by (simp add: get_repository_commits_count_by_author_def get_repository_commits_def
      make_request_def split: sum.splits)

lemma task_snd:
  "snd (get_repository_commits_count_by_author tr ow nm log) = log @ [RepoCommits ow nm]"
  by (simp add: get_repository_commits_count_by_author_def get_repository_commits_def
      make_request_def split: sum.splits)


lemma get_top_repositories_log:
  "snd (get_top_repositories tr limit log) = log @ [SearchRepositories limit]"
  by (simp add: get_top_repositories_def make_request_def split: sum.splits)

lemma repo_entry_fields:
  assumes "repo_entry pos rd = Inr d"
  shows "position d = pos"
    and "py_get rd ''name'' (JStr []) = Inr (name d)"
    and "py_get rd ''language'' (JStr ''Unknown'') = Inr (language d)"
  using assms by (auto simp: repo_entry_def split: sum.splits)

lemma build_length:
  "build_repositories_data pos items = Inr rds \<Longrightarrow> length rds = length items"
  by (induction items arbitrary: pos rds) (auto split: sum.splits)

lemma build_nth:
  "build_repositories_data pos items = Inr rds \<Longrightarrow> i < length items \<Longrightarrow>
     repo_entry (pos + int i) (items ! i) = Inr (rds ! i)"
proof (induction items arbitrary: pos rds i)
  case Nil
  then show ?case by simp
next
  case (Cons rd rest)
  from Cons.prems(1) obtain d ds where d: "repo_entry pos rd = Inr d"
    and ds: "build_repositories_data (pos + 1) rest = Inr ds" and rds: "rds = d # ds"
    by (auto split: sum.splits)
  show ?case
  proof (cases i)
    case 0
    with d rds show ?thesis by simp
  next
    case (Suc j)
    with Cons.prems(2) have "j < length rest" by simp
    from Cons.IH[OF ds this] have "repo_entry (pos + 1 + int j) (rest ! j) = Inr (ds ! j)" .
    moreover have "pos + 1 + int j = pos + int (Suc j)" by simp
    ultimately show ?thesis using Suc rds by (simp only: nth_Cons_Suc)
  qed
qed

lemma get_repositories_success:
  assumes top: "fst (get_top_repositories tr limit log) = Inr top_repos"
    and items: "py_iter top_repos = Inr items"
    and rds: "build_repositories_data 1 items = Inr rds"
  shows "fst (get_repositories tr sched limit log) =
           Inr (map (\<lambda>d. assemble (d, fst (get_repository_commits_count_by_author tr (owner d) (name d) []))) rds)"
    and "mset (snd (get_repositories tr sched limit log)) =
           mset log + {#SearchRepositories limit#} + mset (map (\<lambda>d. RepoCommits (owner d) (name d)) rds)"
proof -
  let ?run = "\<lambda>(ow, nm). get_repository_commits_count_by_author tr ow nm"
  let ?tasks = "map (\<lambda>d. (owner d, name d)) rds"
  let ?log1 = "log @ [SearchRepositories limit]"
  have top': "get_top_repositories tr limit log = (Inr top_repos, ?log1)"
    using top get_top_repositories_log[of tr limit log] by (metis prod.collapse)
  obtain results log2 where g: "gather ?run sched ?tasks ?log1 = (results, log2)"
    by (cases "gather ?run sched ?tasks ?log1")
  have "fst (gather ?run sched ?tasks ?log1) =
      map (\<lambda>(ow, nm). fst (get_repository_commits_count_by_author tr ow nm [])) ?tasks"
    by (rule gather_results) (clarsimp, rule task_fst)
  with g have results: "results = map (\<lambda>d. fst (get_repository_commits_count_by_author tr (owner d) (name d) [])) rds"
    by (simp add: comp_def)
  have "mset (snd (gather ?run sched ?tasks ?log1)) =
      mset ?log1 + mset (map (\<lambda>(ow, nm). RepoCommits ow nm) ?tasks)"
    by (rule gather_log) (auto simp: task_snd)
  with g have log2: "mset log2 = mset log + {#SearchRepositories limit#} + mset (map (\<lambda>d. RepoCommits (owner d) (name d)) rds)"
    by (simp add: comp_def)
  have run: "get_repositories tr sched limit log = (Inr (map assemble (zip rds results)), log2)"
    by (simp add: get_repositories_def top' items rds g)
  have z: "zip rds results = map (\<lambda>d. (d, fst (get_repository_commits_count_by_author tr (owner d) (name d) []))) rds"
    unfolding results by (induction rds) simp_all
  show "fst (get_repositories tr sched limit log) =
           Inr (map (\<lambda>d. assemble (d, fst (get_repository_commits_count_by_author tr (owner d) (name d) []))) rds)"
    by (simp add: run z comp_def)
  show "mset (snd (get_repositories tr sched limit log)) =
           mset log + {#SearchRepositories limit#} + mset (map (\<lambda>d. RepoCommits (owner d) (name d)) rds)"
    by (simp add: run log2)
qed

lemma get_repositories_cases:
  "(\<exists>e. get_repositories tr sched limit log = (Inl e, log @ [SearchRepositories limit])) \<or>
   (\<exists>top_repos items rds. fst (get_top_repositories tr limit log) = Inr top_repos \<and>
        py_iter top_repos = Inr items \<and> build_repositories_data 1 items = Inr rds)"
proof (cases "fst (get_top_repositories tr limit log)")
  case (Inl e)
  then have "get_top_repositories tr limit log = (Inl e, log @ [SearchRepositories limit])"
    using get_top_repositories_log[of tr limit log] by (metis prod.collapse)
  then show ?thesis by (simp add: get_repositories_def)
next
  case (Inr top_repos)
  then have top: "get_top_repositories tr limit log = (Inr top_repos, log @ [SearchRepositories limit])"
    using get_top_repositories_log[of tr limit log] by (metis prod.collapse)
  show ?thesis
  proof (cases "py_iter top_repos")
    case (Inl e)
    with top show ?thesis by (simp add: get_repositories_def)
  next
    case items: (Inr items)
    show ?thesis
    proof (cases "build_repositories_data 1 items")
      case (Inl e)
      with top items show ?thesis by (simp add: get_repositories_def)
    next
      case (Inr rds)
      with Inr items \<open>fst (get_top_repositories tr limit log) = Inr top_repos\<close> show ?thesis by blast
    qed
  qed
qed


lemma get_top_repositories_cong:
  "tr' (SearchRepositories limit) = tr (SearchRepositories limit) \<Longrightarrow>
     get_top_repositories tr' limit log = get_top_repositories tr limit log"
  by (simp add: get_top_repositories_def make_request_def)

lemma assemble_fields:
  "owner (assemble (d, r)) = owner d" "name (assemble (d, r)) = name d"
  "position (assemble (d, r)) = position d" "language (assemble (d, r)) = language d"
  "authors_commits_num_today (assemble (d, r)) = (case r of Inl e \<Rightarrow> [] | Inr x \<Rightarrow> x)"
  by (simp_all add: assemble_def)


text \<open>
  C2. In a successful run the report at index \<open>i\<close> has position \<open>i + 1\<close> and is built from
  the record at index \<open>i\<close> of the listing; positions are strictly increasing; and every
  completion order of the tasks gives the same batch.
\<close>

theorem positions_follow_listing_order:
  assumes run: "get_repositories tr sched limit [] = (Inr batch, log)"
  shows "\<exists>top_repos items.
           fst (get_top_repositories tr limit []) = Inr top_repos \<and> py_iter top_repos = Inr items \<and>
           length batch = length items \<and>
           (\<forall>i<length batch. position (batch ! i) = int i + 1 \<and>
              py_get (items ! i) ''name'' (JStr []) = Inr (name (batch ! i))) \<and>
           (\<forall>i j. i < j \<longrightarrow> j < length batch \<longrightarrow> position (batch ! i) < position (batch ! j)) \<and>
           (\<forall>sched'. fst (get_repositories tr sched' limit []) = Inr batch)"
proof -
  have "\<not> (\<exists>e. get_repositories tr sched limit [] = (Inl e, [] @ [SearchRepositories limit]))"
    using run by auto
  with get_repositories_cases[of tr sched limit "[]"]
  obtain top_repos items rds where top: "fst (get_top_repositories tr limit []) = Inr top_repos"
    and items: "py_iter top_repos = Inr items" and rds: "build_repositories_data 1 items = Inr rds"
    by blast
  let ?task = "\<lambda>d. fst (get_repository_commits_count_by_author tr (owner d) (name d) [])"
  have batch: "batch = map (\<lambda>d. assemble (d, ?task d)) rds"
    using get_repositories_success(1)[OF top items rds, of sched] run by simp
  have len: "length batch = length items"
    by (simp add: batch build_length[OF rds])
  have pos: "position (batch ! i) = int i + 1 \<and>
              py_get (items ! i) ''name'' (JStr []) = Inr (name (batch ! i))"
    if "i < length batch" for i
  proof -
    from that len have i: "i < length items" by simp
    from repo_entry_fields[OF build_nth[OF rds i]] that show ?thesis
      by (simp add: batch assemble_fields)
  qed
  have incr: "position (batch ! i) < position (batch ! j)" if "i < j" "j < length batch" for i j
    using pos[of i] pos[of j] that by simp
  have sched: "fst (get_repositories tr sched' limit []) = Inr batch" for sched'
    using get_repositories_success(1)[OF top items rds, of sched'] by (simp add: batch)
  from top items len pos incr sched show ?thesis by blast
qed

text \<open>
  C3, as the code has it. A failure of the listing call surfaces unchanged, with the
  listing request as the only request issued. Whenever the run surfaces an error, no
  commit request was issued, and the error is decided by the listing response alone: no
  failure of an aggregation task surfaces.
\<close>

theorem errors_surface_before_fan_out:
  "(fst (get_top_repositories tr limit []) = Inl e \<longrightarrow>
      get_repositories tr sched limit [] = (Inl e, [SearchRepositories limit]))
   \<and> (fst (get_repositories tr sched limit []) = Inl e \<longrightarrow>
        snd (get_repositories tr sched limit []) = [SearchRepositories limit] \<and>
        (\<forall>tr' sched'. tr' (SearchRepositories limit) = tr (SearchRepositories limit) \<longrightarrow>
           fst (get_repositories tr' sched' limit []) = Inl e))"
proof (intro conjI impI allI)
  assume "fst (get_top_repositories tr limit []) = Inl e"
  then have "get_top_repositories tr limit [] = (Inl e, [SearchRepositories limit])"
    using get_top_repositories_log[of tr limit "[]"] by (metis prod.collapse append_Nil)
  then show "get_repositories tr sched limit [] = (Inl e, [SearchRepositories limit])"
    by (simp add: get_repositories_def)
next
  assume err: "fst (get_repositories tr sched limit []) = Inl e"
  have nosucc: "\<not> (\<exists>top_repos items rds. fst (get_top_repositories tr limit []) = Inr top_repos \<and>
        py_iter top_repos = Inr items \<and> build_repositories_data 1 items = Inr rds)"
    using get_repositories_success(1)[of tr limit "[]" _ _ _ sched] err by auto
  with get_repositories_cases[of tr sched limit "[]"] err
  show "snd (get_repositories tr sched limit []) = [SearchRepositories limit]" by auto
  fix tr' :: transport and sched'
  assume "tr' (SearchRepositories limit) = tr (SearchRepositories limit)"
  then have same: "get_top_repositories tr' limit [] = get_top_repositories tr limit []"
    by (rule get_top_repositories_cong)
  have "\<exists>e'. get_repositories tr' sched' limit [] = (Inl e', [] @ [SearchRepositories limit])"
    using get_repositories_cases[of tr' sched' limit "[]"] nosucc same by auto
  then obtain e' where e': "get_repositories tr' sched' limit [] = (Inl e', [SearchRepositories limit])"
    by auto
  have "get_repositories tr' sched' limit [] = get_repositories tr sched limit []"
    using nosucc same
    by (auto simp: get_repositories_def split: prod.splits sum.splits)
  with err show "fst (get_repositories tr' sched' limit []) = Inl e" by simp
qed

lemma example_run:
  "get_repositories example_transport [2, 0, 0] 3 [] =
     (Inr example_batch,
      [SearchRepositories 3, RepoCommits (JStr ''o'') (JStr ''C''),
       RepoCommits (JStr ''o'') (JStr ''A''), RepoCommits (JStr ''o'') (JStr ''B'')])"
  by code_simp


theorem positions_follow_listing_order_witness:
  "get_repositories example_transport [2, 0, 0] 3 [] =
     (Inr example_batch,
      [SearchRepositories 3, RepoCommits (JStr ''o'') (JStr ''C''),
       RepoCommits (JStr ''o'') (JStr ''A''), RepoCommits (JStr ''o'') (JStr ''B'')])
   \<and> map position example_batch = [1, 2, 3]
   \<and> position (example_batch ! 0) < position (example_batch ! 1)
   \<and> position (example_batch ! 1) < position (example_batch ! 2)
   \<and> fst (get_repositories example_transport [0, 1, 0] 3 []) = Inr example_batch"
proof -
  from positions_follow_listing_order[OF example_run]
  have "\<forall>sched'. fst (get_repositories example_transport sched' 3 []) = Inr example_batch"
    by blast
  then have "fst (get_repositories example_transport [0, 1, 0] 3 []) = Inr example_batch"
    by blast
  with example_run show ?thesis by (simp add: example_batch_def)
qed

theorem errors_surface_before_fan_out_witness:
  "fst (get_top_repositories (\<lambda>req. Inl RequestError) 3 []) = Inl RequestError
   \<and> get_repositories (\<lambda>req. Inl RequestError) [1, 0] 3 [] = (Inl RequestError, [SearchRepositories 3])
   \<and> fst (get_repositories (\<lambda>req. Inl RequestError) [] 3 []) = Inl RequestError"
proof -
  have h: "fst (get_top_repositories (\<lambda>req. Inl RequestError) 3 []) = Inl RequestError"
    by (simp add: get_top_repositories_def make_request_def)
  from errors_surface_before_fan_out[of "\<lambda>req. Inl RequestError" 3 RequestError "[1, 0]"] h
  have r: "get_repositories (\<lambda>req. Inl RequestError) [1, 0] 3 [] = (Inl RequestError, [SearchRepositories 3])"
    by blast
  then have "fst (get_repositories (\<lambda>req. Inl RequestError) [1, 0] 3 []) = Inl RequestError"
    by simp
  with errors_surface_before_fan_out[of "\<lambda>req. Inl RequestError" 3 RequestError "[1, 0]"]
  have a: "\<forall>tr' sched'. tr' (SearchRepositories 3) = Inl RequestError \<longrightarrow>
           fst (get_repositories tr' sched' 3 []) = Inl RequestError"
    by blast
  from a[rule_format, of "\<lambda>req. Inl RequestError" "[]"]
  have "fst (get_repositories (\<lambda>req. Inl RequestError) [] 3 []) = Inl RequestError"
    by simp
  with h r show ?thesis by simp
qed

text \<open>
  C3 as stated fails: the listing call succeeds and the run still surfaces an error, here
  for a listed record that is not an object.
\<close>

theorem run_fails_after_successful_listing:
  "fst (get_top_repositories (\<lambda>req. Inr (JObj [(''total_count'', JInt 1), (''items'', JList [JNull])])) 1 [])
     = Inr (JList [JNull])
   \<and> fst (get_repositories (\<lambda>req. Inr (JObj [(''total_count'', JInt 1), (''items'', JList [JNull])])) [] 1 [])
     = Inl AttributeError"
  by (simp add: get_repositories_def get_top_repositories_def make_request_def repo_entry_def)

text \<open>
  C7 on a record whose \<open>language\<close> is \<open>null\<close>: the default of \<open>get\<close> is not used for a
  key that is present, and the report carries \<open>None\<close>.
\<close>

theorem null_language_is_not_normalized:
  "fst (get_repositories
     (\<lambda>req. case req of
        SearchRepositories n \<Rightarrow>
          Inr (JObj [(''items'', JList [JObj [(''name'', JStr ''r''), (''owner'', JObj [(''login'', JStr ''o'')]),
                                              (''stargazers_count'', JInt 5), (''watchers_count'', JInt 5),
                                              (''forks_count'', JInt 1), (''language'', JNull)]])])
      | RepoCommits ow nm \<Rightarrow> Inr (JList []))
     [] 1 [])
   = Inr [\<lparr>name = JStr ''r'', owner = JStr ''o'', position = 1, stars = JInt 5, watchers = JInt 5,
           forks = JInt 1, language = JNull, authors_commits_num_today = []\<rparr>]"
  by (simp add: get_repositories_def get_top_repositories_def make_request_def repo_entry_def
      gather_def complete_all.simps get_repository_commits_count_by_author_def
      get_repository_commits_def commits_count_by_author_def assemble_def future_result_def)

text \<open>
  C8 on a record whose \<open>owner\<close> is \<open>null\<close>: \<open>repo_data.get('owner', {})\<close> is \<open>None\<close>, the
  second \<open>get\<close> raises, and the whole run fails.
\<close>

theorem null_owner_fails_the_fetch:
  "fst (get_repositories
     (\<lambda>req. case req of
        SearchRepositories n \<Rightarrow>
          Inr (JObj [(''items'', JList [JObj [(''name'', JStr ''r''), (''owner'', JNull),
                                              (''stargazers_count'', JInt 5), (''watchers_count'', JInt 5),
                                              (''forks_count'', JInt 1), (''language'', JStr ''C'')]])])
      | RepoCommits ow nm \<Rightarrow> Inr (JList []))
     [] 1 [])
   = Inl AttributeError"
  by (simp add: get_repositories_def get_top_repositories_def make_request_def repo_entry_def)

lemma absent_language_is_unknown:
  "map_of rd ''language'' = None \<Longrightarrow> repo_entry pos (JObj rd) = Inr d \<Longrightarrow>
     language d = JStr ''Unknown''"
  by (auto simp: repo_entry_def split: sum.splits)

lemma absent_owner_and_name_are_empty:
  "map_of rd ''owner'' = None \<Longrightarrow> map_of rd ''name'' = None \<Longrightarrow>
     \<exists>d. repo_entry pos (JObj rd) = Inr d \<and> owner d = JStr [] \<and> name d = JStr []"
  by (simp add: repo_entry_def)


section \<open>The sliding window of the rate limiter\<close>

lemma prune_prune: "now \<le> now' \<Longrightarrow> prune now' (prune now rs) = prune now' rs"
  by (induction rs) (auto simp: prune_def)

lemma prune_filter:
  "prev \<le> t \<Longrightarrow> prune t (filter (\<lambda>a. prev - a < 1000000) A) = filter (\<lambda>a. t - a < 1000000) A"
  by (induction A) (auto simp: prune_def)

text \<open>One call, on a limiter whose list is the part of the history \<open>A\<close> younger than one
  second at the last reading \<open>prev\<close>.\<close>

lemma acquire_step:
  assumes m: "1 \<le> max_requests_per_second rl"
    and rq: "requests rl = filter (\<lambda>a. prev - a < 1000000) A"
    and len: "int (length (requests rl)) \<le> max_requests_per_second rl"
    and mono: "prev \<le> now"
    and late: "0 \<le> late"
    and recent: "recent = filter (\<lambda>a. now - a < 1000000) A"
  shows "\<exists>t. fst (acquire rl now late) = Inr t
    \<and> t = (if max_requests_per_second rl \<le> int (length recent)
           then now + max 0 (1000000 - (now - hd recent)) + late else now)
    \<and> (max_requests_per_second rl \<le> int (length recent) \<longrightarrow> recent \<noteq> [])
    \<and> max_requests_per_second (snd (acquire rl now late)) = max_requests_per_second rl
    \<and> requests (snd (acquire rl now late)) = filter (\<lambda>a. t - a < 1000000) (A @ [t])
    \<and> int (length (requests (snd (acquire rl now late)))) \<le> max_requests_per_second rl
    \<and> prev \<le> t"
proof -
  define rs where "rs = prune now (requests rl)"
  have rs: "rs = recent"
    unfolding rs_def rq recent by (rule prune_filter[OF mono])
  have rslen: "int (length rs) \<le> max_requests_per_second rl"
  proof -
    have "length rs \<le> length (requests rl)"
      unfolding rs_def prune_def by (rule length_filter_le)
    with len show ?thesis by simp
  qed
  show ?thesis
  proof (cases "max_requests_per_second rl \<le> int (length rs)")
    case False
    then have lt: "int (length rs) < max_requests_per_second rl" by simp
    have acq: "acquire rl now late = (Inr now, rl\<lparr>requests := rs @ [now]\<rparr>)"
      using lt by (simp add: acquire_def rs_def[symmetric] Let_def)
    have "requests (snd (acquire rl now late)) = filter (\<lambda>a. now - a < 1000000) (A @ [now])"
      by (simp add: acq rs recent)
    with lt mono show ?thesis
      by (simp add: acq rs[symmetric])
  next
    case True
    with m obtain r0 rest where cons: "rs = r0 # rest" by (cases rs) auto
    define now' where "now' = now + max 0 (1000000 - (now - r0)) + late"
    have "r0 \<in> set (prune now (requests rl))"
      using cons by (simp add: rs_def[symmetric])
    then have young: "now - r0 < 1000000" by (simp add: prune_def)
    have w1: "now \<le> now'" and w2: "1000000 \<le> now' - r0"
      using late by (simp_all add: now'_def)
    have acq: "acquire rl now late = (Inr now', rl\<lparr>requests := prune now' rs @ [now']\<rparr>)"
      using True young
      by (simp add: acquire_def rs_def[symmetric] Let_def cons sleep_time_def now'_def)
    have pr: "prune now' rs = filter (\<lambda>a. now' - a < 1000000) A"
      unfolding rs_def rq using prune_prune[OF w1] prune_filter[of prev now' A] mono w1 by simp
    have "prune now' rs = prune now' rest"
      using w2 by (simp add: cons prune_def)
    then have "length (prune now' rs) \<le> length rest"
      by (simp add: prune_def)
    with rslen cons have l: "int (length (prune now' rs)) + 1 \<le> max_requests_per_second rl"
      by simp
    have "requests (snd (acquire rl now late)) = filter (\<lambda>a. now' - a < 1000000) (A @ [now'])"
      by (simp add: acq pr)
    moreover have "int (length (requests (snd (acquire rl now late)))) \<le> max_requests_per_second rl"
      using l by (simp add: acq)
    moreover have "recent = r0 # rest"
      using rs cons by simp
    then have "recent \<noteq> []" "hd recent = r0"
      by simp_all
    ultimately show ?thesis
      using mono w1 True by (simp add: acq rs[symmetric] cons now'_def)
  qed
qed

lemma window_snoc:
  assumes old: "\<forall>T. int (length (window T A)) \<le> M"
    and cur: "int (length (filter (\<lambda>a. t - a < 1000000) (A @ [t]))) \<le> M"
  shows "int (length (window T (A @ [t]))) \<le> M"
proof (cases "T - t < 1000000 \<and> t \<le> T")
  case False
  then have "window T (A @ [t]) = window T A" by (auto simp: window_def)
  with old show ?thesis by simp
next
  case True
  have "length (filter (\<lambda>a. T - a < 1000000 \<and> a \<le> T) A) \<le> length (filter (\<lambda>a. t - a < 1000000) A)"
  proof -
    have "filter (\<lambda>a. T - a < 1000000 \<and> a \<le> T) A =
          filter (\<lambda>a. T - a < 1000000 \<and> a \<le> T) (filter (\<lambda>a. t - a < 1000000) A)"
      using True by (induction A) auto
    then have "length (filter (\<lambda>a. T - a < 1000000 \<and> a \<le> T) A) =
          length (filter (\<lambda>a. T - a < 1000000 \<and> a \<le> T) (filter (\<lambda>a. t - a < 1000000) A))"
      by simp
    also have "\<dots> \<le> length (filter (\<lambda>a. t - a < 1000000) A)"
      by (rule length_filter_le)
    finally show ?thesis .
  qed
  with True cur show ?thesis by (simp add: window_def)
qed

lemma admissions_inv:
  "1 \<le> max_requests_per_second rl \<Longrightarrow> steady_clock calls \<Longrightarrow>
   requests rl = filter (\<lambda>a. clock - a < 1000000) A \<Longrightarrow>
   int (length (requests rl)) \<le> max_requests_per_second rl \<Longrightarrow>
   \<forall>T. int (length (window T A)) \<le> max_requests_per_second rl \<Longrightarrow>
     length (admissions rl clock calls) = length calls \<and>
     (\<forall>T. int (length (window T (A @ admissions rl clock calls))) \<le> max_requests_per_second rl) \<and>
     admissions rl clock calls = sliding_window_admissions (max_requests_per_second rl) A clock calls"
proof (induction calls arbitrary: rl clock A)
  case Nil
  then show ?case by simp
next
  case (Cons call calls)
  obtain gap late where call: "call = (gap, late)" by (cases call)
  define now where "now = clock + gap"
  define recent where "recent = filter (\<lambda>a. now - a < 1000000) A"
  define rl' where "rl' = snd (acquire rl now late)"
  from Cons.prems(2) have gap: "0 \<le> gap" and late: "0 \<le> late" and steady: "steady_clock calls"
    by (simp_all add: steady_clock_def call)
  have mono: "clock \<le> now" using gap by (simp add: now_def)
  from acquire_step[OF Cons.prems(1) Cons.prems(3) Cons.prems(4) mono late recent_def, folded rl'_def]
  obtain t where res: "fst (acquire rl now late) = Inr t"
    and t: "t = (if max_requests_per_second rl \<le> int (length recent)
           then now + max 0 (1000000 - (now - hd recent)) + late else now)"
    and ne: "max_requests_per_second rl \<le> int (length recent) \<longrightarrow> recent \<noteq> []"
    and m': "max_requests_per_second rl' = max_requests_per_second rl"
    and rq': "requests rl' = filter (\<lambda>a. t - a < 1000000) (A @ [t])"
    and len': "int (length (requests rl')) \<le> max_requests_per_second rl"
    by blast
  have acq: "acquire rl (clock + gap) late = (Inr t, rl')"
    using res by (simp add: rl'_def now_def prod_eq_iff)
  have win': "\<forall>T. int (length (window T (A @ [t]))) \<le> max_requests_per_second rl'"
    using window_snoc[OF Cons.prems(5)] len' rq' m' by simp
  from Cons.prems(1) m' have one: "1 \<le> max_requests_per_second rl'" by simp
  from len' m' have len'': "int (length (requests rl')) \<le> max_requests_per_second rl'" by simp
  note IH = Cons.IH[OF one steady rq' len'' win', unfolded m']
  have spec: "sliding_window_admissions (max_requests_per_second rl) A clock (call # calls) =
      t # sliding_window_admissions (max_requests_per_second rl) (A @ [t]) t calls"
  proof (cases "max_requests_per_second rl \<le> int (length recent)")
    case True
    with ne obtain oldest rest where r: "recent = oldest # rest" by (cases recent) auto
    with True t show ?thesis
      by (simp add: call now_def[symmetric] recent_def[symmetric] Let_def)
  next
    case False
    with t show ?thesis
      by (simp add: call now_def[symmetric] recent_def[symmetric] Let_def)
  qed
  have adm: "admissions rl clock (call # calls) = t # admissions rl' t calls"
    by (simp add: call acq)
  from IH have c1: "length (admissions rl' t calls) = length calls"
    and c2: "\<forall>T. int (length (window T ((A @ [t]) @ admissions rl' t calls))) \<le> max_requests_per_second rl"
    and c3: "admissions rl' t calls =
      sliding_window_admissions (max_requests_per_second rl) (A @ [t]) t calls"
    by blast+
  show ?case
  proof (intro conjI)
    show "length (admissions rl clock (call # calls)) = length (call # calls)"
      unfolding adm using c1 by simp
    show "\<forall>T. int (length (window T (A @ admissions rl clock (call # calls))))
        \<le> max_requests_per_second rl"
      unfolding adm using c2 by simp
    show "admissions rl clock (call # calls) =
        sliding_window_admissions (max_requests_per_second rl) A clock (call # calls)"
      unfolding adm spec using c3 by simp
  qed
qed

text \<open>
  C4, as the code has it. A limiter built for \<open>n \<ge> 1\<close> requests per second, called any
  number of times under a clock that never goes back and with no sleep cut short: every
  call returns with an admission (none raises); every trailing window of one second holds
  at most \<open>n\<close> admissions; and the admission times are those of the sliding-window
  algorithm of the specification, so that a call that has to wait is admitted one second
  after the oldest admission of the window, plus what the clock is late.
\<close>

theorem rate_limit_sliding_window:
  assumes "1 \<le> n" and "steady_clock calls"
  shows "length (admissions (RateLimiter_init n) clock calls) = length calls
       \<and> (\<forall>T. int (length (window T (admissions (RateLimiter_init n) clock calls))) \<le> n)
       \<and> admissions (RateLimiter_init n) clock calls = sliding_window_admissions n [] clock calls"
proof -
  have m: "max_requests_per_second (RateLimiter_init n) = n"
    by (simp add: RateLimiter_init_def)
  have p1: "1 \<le> max_requests_per_second (RateLimiter_init n)"
    using assms(1) by (simp add: m)
  have p3: "requests (RateLimiter_init n) = filter (\<lambda>a. clock - a < 1000000) []"
    by (simp add: RateLimiter_init_def)
  have p4: "int (length (requests (RateLimiter_init n))) \<le> max_requests_per_second (RateLimiter_init n)"
    using assms(1) by (simp add: RateLimiter_init_def)
  have p5: "\<forall>T. int (length (window T [])) \<le> max_requests_per_second (RateLimiter_init n)"
    using assms(1) by (simp add: RateLimiter_init_def window_def)
  from admissions_inv[OF p1 assms(2) p3 p4 p5] show ?thesis
    unfolding m append_Nil .
qed

text \<open>
  C4 as stated fails: \<open>acquire\<close> appends after the sleep without testing the count again.
  With a limit of two, two calls at time \<open>0\<close> and a third whose sleep of one second ends one
  microsecond early give three admissions in the window that ends at \<open>999999\<close>.
\<close>

theorem rate_limit_exceeded_when_sleep_is_cut_short:
  "admissions (RateLimiter_init 2) 0 [(0, 0), (0, 0), (0, - 1)] = [0, 0, 999999]
   \<and> window 999999 [0, 0, 999999] = [0, 0, 999999]
   \<and> \<not> int (length (window 999999 (admissions (RateLimiter_init 2) 0 [(0, 0), (0, 0), (0, - 1)]))) \<le> 2"
  by code_simp

lemma example_clock: "steady_clock [(0, 0), (0, 0), (250000, 7), (0, 0)]"
  by code_simp

lemma example_admissions:
  "admissions (RateLimiter_init 2) 0 [(0, 0), (0, 0), (250000, 7), (0, 0)] = [0, 0, 1000007, 1000007]"
  by code_simp

theorem rate_limit_sliding_window_witness:
  "(1::int) \<le> 2
   \<and> steady_clock [(0, 0), (0, 0), (250000, 7), (0, 0)]
   \<and> admissions (RateLimiter_init 2) 0 [(0, 0), (0, 0), (250000, 7), (0, 0)] = [0, 0, 1000007, 1000007]
   \<and> sliding_window_admissions 2 [] 0 [(0, 0), (0, 0), (250000, 7), (0, 0)] = [0, 0, 1000007, 1000007]
   \<and> int (length (window 999999 [0, 0, 1000007, 1000007])) \<le> 2
   \<and> int (length (window 1000007 [0, 0, 1000007, 1000007])) \<le> 2"
proof -
  have h: "(1::int) \<le> 2" by simp
  from rate_limit_sliding_window[OF h example_clock, of 0, unfolded example_admissions]
  have "(\<forall>T. int (length (window T [0, 0, 1000007, 1000007])) \<le> 2)
      \<and> [0, 0, 1000007, 1000007] = sliding_window_admissions 2 [] 0 [(0, 0), (0, 0), (250000, 7), (0, 0)]"
    by blast
  with h example_clock example_admissions show ?thesis by metis
qed

section \<open>The concurrency gate\<close>

lemma filter_count: "length (filter (\<lambda>q. q = p) xs) = count (mset xs) p"
  by (induction xs) auto

lemma in_phase_count: "in_phase p g = count (mset (phases g)) p"
  by (simp only: in_phase_def filter_count)

lemma count_update:
  assumes i: "i < length xs" and x: "xs ! i = x"
  shows "count (mset (xs[i := y])) p + (if p = x then 1 else 0) =
         count (mset xs) p + (if p = y then 1 else 0)"
proof -
  have "x \<in># mset xs" using i x nth_mem[OF i] by simp
  then have "1 \<le> count (mset xs) x" by (simp add: Suc_le_eq)
  then show ?thesis
    using i x by (simp add: mset_update)
qed

lemma leave_conserves:
  assumes i: "i < length (phases g)" and x: "phases g ! i = p" and p: "p = Holding \<or> p = InTransport"
  defines "g' \<equiv> g\<lparr>sem_value := sem_value g + 1, phases := (phases g)[i := Finished]\<rparr>"
  shows "sem_value g' + in_phase Holding g' + in_phase InTransport g' =
         sem_value g + in_phase Holding g + in_phase InTransport g"
  using count_update[OF i x, of Finished Holding] count_update[OF i x, of Finished InTransport] p
  by (auto simp: g'_def in_phase_count)

lemma step_conserves:
  "sem_value (step g ev) + in_phase Holding (step g ev) + in_phase InTransport (step g ev) =
   sem_value g + in_phase Holding g + in_phase InTransport g"
proof (cases ev)
  case (Enter i)
  show ?thesis
  proof (cases "i < length (phases g) \<and> phases g ! i = Waiting \<and> 0 < sem_value g")
    case True
    then have i: "i < length (phases g)" and x: "phases g ! i = Waiting" by simp_all
    from count_update[OF i x, of Holding Holding] count_update[OF i x, of Holding InTransport] True
    show ?thesis by (simp add: Enter in_phase_count)
  next
    case False
    then show ?thesis by (auto simp: Enter)
  qed
next
  case (Admit i)
  show ?thesis
  proof (cases "i < length (phases g) \<and> phases g ! i = Holding")
    case True
    then have i: "i < length (phases g)" and x: "phases g ! i = Holding" by simp_all
    from count_update[OF i x, of InTransport Holding] count_update[OF i x, of InTransport InTransport] True
    show ?thesis by (simp add: Admit in_phase_count)
  next
    case False
    then show ?thesis by (auto simp: Admit)
  qed
next
  case (LimiterRaises i)
  show ?thesis
  proof (cases "i < length (phases g) \<and> phases g ! i = Holding")
    case True
    with leave_conserves[of i g Holding] show ?thesis by (simp add: LimiterRaises)
  next
    case False
    then show ?thesis by (auto simp: LimiterRaises)
  qed
next
  case (TransportReturns i)
  show ?thesis
  proof (cases "i < length (phases g) \<and> phases g ! i = InTransport")
    case True
    with leave_conserves[of i g InTransport] show ?thesis by (simp add: TransportReturns)
  next
    case False
    then show ?thesis by (auto simp: TransportReturns)
  qed
next
  case (TransportRaises i)
  show ?thesis
  proof (cases "i < length (phases g) \<and> phases g ! i = InTransport")
    case True
    with leave_conserves[of i g InTransport] show ?thesis by (simp add: TransportRaises)
  next
    case False
    then show ?thesis by (auto simp: TransportRaises)
  qed
qed

lemma run_events_conserves:
  "sem_value (run_events g evs) + in_phase Holding (run_events g evs)
     + in_phase InTransport (run_events g evs) =
   sem_value g + in_phase Holding g + in_phase InTransport g"
  unfolding run_events_def
  by (induction evs arbitrary: g) (simp_all add: step_conserves)

lemma run_events_snoc: "run_events g (evs @ [ev]) = step (run_events g evs) ev"
  by (simp add: run_events_def)

lemma length_phases_step: "length (phases (step g ev)) = length (phases g)"
  by (cases ev) simp_all

lemma length_phases_run: "length (phases (run_events g evs)) = length (phases g)"
  by (induction evs rule: rev_induct) (simp_all add: run_events_snoc length_phases_step, simp add: run_events_def)

text \<open>How a call can come to hold a slot, and how it can come to be in transport.\<close>

lemma step_to_Holding:
  assumes "i < length (phases g)" and "phases (step g ev) ! i = Holding"
  shows "phases g ! i = Holding \<or> (phases g ! i = Waiting \<and> ev = Enter i \<and> 0 < sem_value g)"
  using assms by (cases ev) (auto simp: nth_list_update split: if_splits)

lemma step_to_InTransport:
  assumes "i < length (phases g)" and "phases (step g ev) ! i = InTransport"
  shows "phases g ! i = InTransport \<or> (phases g ! i = Holding \<and> ev = Admit i)"
  using assms by (cases ev) (auto simp: nth_list_update split: if_splits)

lemma slot_history:
  assumes i: "i < n"
  shows "(phases (run_events (start c n) evs) ! i = Holding \<longrightarrow>
            (\<exists>a b. evs = a @ Enter i # b \<and> 0 < sem_value (run_events (start c n) a)))
       \<and> (phases (run_events (start c n) evs) ! i = InTransport \<longrightarrow>
            (\<exists>a b d. evs = a @ Enter i # b @ Admit i # d \<and> 0 < sem_value (run_events (start c n) a)))"
proof (induction evs rule: rev_induct)
  case Nil
  from i show ?case by (simp add: run_events_def start_def)
next
  case (snoc ev evs)
  let ?g = "run_events (start c n) evs"
  have len: "i < length (phases ?g)"
    using i by (simp add: length_phases_run start_def)
  have hold: "\<exists>a b. evs @ [ev] = a @ Enter i # b \<and> 0 < sem_value (run_events (start c n) a)"
    if "phases (step ?g ev) ! i = Holding"
  proof -
    from step_to_Holding[OF len that] show ?thesis
    proof (elim disjE conjE)
      assume "phases ?g ! i = Holding"
      with snoc.IH obtain a b where ab: "evs = a @ Enter i # b"
        and free: "0 < sem_value (run_events (start c n) a)"
        by blast
      from ab have "evs @ [ev] = a @ Enter i # (b @ [ev])" by simp
      with free show ?thesis by blast
    next
      assume "ev = Enter i" and free: "0 < sem_value ?g"
      then have "evs @ [ev] = evs @ Enter i # []" by simp
      with free show ?thesis by blast
    qed
  qed
  have trans: "\<exists>a b d. evs @ [ev] = a @ Enter i # b @ Admit i # d \<and> 0 < sem_value (run_events (start c n) a)"
    if "phases (step ?g ev) ! i = InTransport"
  proof -
    from step_to_InTransport[OF len that] show ?thesis
    proof (elim disjE conjE)
      assume "phases ?g ! i = InTransport"
      with snoc.IH obtain a b d where abd: "evs = a @ Enter i # b @ Admit i # d"
        and free: "0 < sem_value (run_events (start c n) a)"
        by blast
      from abd have "evs @ [ev] = a @ Enter i # b @ Admit i # (d @ [ev])" by simp
      with free show ?thesis by blast
    next
      assume "phases ?g ! i = Holding" and ev: "ev = Admit i"
      with snoc.IH obtain a b where ab: "evs = a @ Enter i # b"
        and free: "0 < sem_value (run_events (start c n) a)"
        by blast
      from ab ev have "evs @ [ev] = a @ Enter i # b @ Admit i # []" by simp
      with free show ?thesis by blast
    qed
  qed
  from hold trans show ?case by (simp add: run_events_snoc)
qed

text \<open>
  C5. Take the state after any sequence of events of any number of calls of
  \<open>_make_request\<close>. At most \<open>max_concurrent_requests\<close> calls are in transport, and the free
  slots and the calls that hold a slot always add up to the capacity. A call that holds a
  slot took it, when one was free, at an earlier \<open>Enter\<close>; a call in transport took its slot
  first and passed the rate limiter after that. Every way of leaving the guarded block
  gives the slot back: when \<open>acquire\<close> raises in a call that holds a slot, and when the
  transport of a call returns or raises, the call is finished and one more slot is free.
\<close>

theorem concurrency_gate_bound:
  "in_phase InTransport (run_events (start max_concurrent_requests n) evs) \<le> max_concurrent_requests
   \<and> sem_value (run_events (start max_concurrent_requests n) evs)
       + in_phase Holding (run_events (start max_concurrent_requests n) evs)
       + in_phase InTransport (run_events (start max_concurrent_requests n) evs)
     = max_concurrent_requests
   \<and> (\<forall>i<n. phases (run_events (start max_concurrent_requests n) evs) ! i = Holding \<longrightarrow>
         (\<exists>a b. evs = a @ Enter i # b \<and>
            0 < sem_value (run_events (start max_concurrent_requests n) a)) \<and>
         phases (run_events (start max_concurrent_requests n) (evs @ [LimiterRaises i])) ! i = Finished \<and>
         sem_value (run_events (start max_concurrent_requests n) (evs @ [LimiterRaises i])) =
           sem_value (run_events (start max_concurrent_requests n) evs) + 1)
   \<and> (\<forall>i<n. phases (run_events (start max_concurrent_requests n) evs) ! i = InTransport \<longrightarrow>
         (\<exists>a b d. evs = a @ Enter i # b @ Admit i # d \<and>
            0 < sem_value (run_events (start max_concurrent_requests n) a)) \<and>
         phases (run_events (start max_concurrent_requests n) (evs @ [TransportReturns i])) ! i = Finished \<and>
         sem_value (run_events (start max_concurrent_requests n) (evs @ [TransportReturns i])) =
           sem_value (run_events (start max_concurrent_requests n) evs) + 1 \<and>
         phases (run_events (start max_concurrent_requests n) (evs @ [TransportRaises i])) ! i = Finished \<and>
         sem_value (run_events (start max_concurrent_requests n) (evs @ [TransportRaises i])) =
           sem_value (run_events (start max_concurrent_requests n) evs) + 1)"
proof -
  let ?g = "run_events (start max_concurrent_requests n) evs"
  have "sem_value (start max_concurrent_requests n) + in_phase Holding (start max_concurrent_requests n)
      + in_phase InTransport (start max_concurrent_requests n) = max_concurrent_requests"
    by (simp add: start_def in_phase_def)
  with run_events_conserves[of "start max_concurrent_requests n" evs]
  have cons: "sem_value ?g + in_phase Holding ?g + in_phase InTransport ?g = max_concurrent_requests"
    by simp
  then have bound: "in_phase InTransport ?g \<le> max_concurrent_requests" by simp
  have len: "length (phases ?g) = n"
    by (simp add: length_phases_run start_def)
  have leave: "phases (step ?g ev) ! i = Finished \<and> sem_value (step ?g ev) = sem_value ?g + 1"
    if "i < n" and "(phases ?g ! i = Holding \<and> ev = LimiterRaises i) \<or>
         (phases ?g ! i = InTransport \<and> (ev = TransportReturns i \<or> ev = TransportRaises i))"
    for i ev
    using that len by auto
  have H: "(\<exists>a b. evs = a @ Enter i # b \<and>
            0 < sem_value (run_events (start max_concurrent_requests n) a)) \<and>
         phases (run_events (start max_concurrent_requests n) (evs @ [LimiterRaises i])) ! i = Finished \<and>
         sem_value (run_events (start max_concurrent_requests n) (evs @ [LimiterRaises i])) =
           sem_value ?g + 1"
    if "i < n" "phases ?g ! i = Holding" for i
    using slot_history[OF that(1), of max_concurrent_requests evs] that
      leave[OF that(1), of "LimiterRaises i"]
    by (simp add: run_events_snoc)
  have T: "(\<exists>a b d. evs = a @ Enter i # b @ Admit i # d \<and>
            0 < sem_value (run_events (start max_concurrent_requests n) a)) \<and>
         phases (run_events (start max_concurrent_requests n) (evs @ [TransportReturns i])) ! i = Finished \<and>
         sem_value (run_events (start max_concurrent_requests n) (evs @ [TransportReturns i])) =
           sem_value ?g + 1 \<and>
         phases (run_events (start max_concurrent_requests n) (evs @ [TransportRaises i])) ! i = Finished \<and>
         sem_value (run_events (start max_concurrent_requests n) (evs @ [TransportRaises i])) =
           sem_value ?g + 1"
    if "i < n" "phases ?g ! i = InTransport" for i
    using slot_history[OF that(1), of max_concurrent_requests evs] that
      leave[OF that(1), of "TransportReturns i"] leave[OF that(1), of "TransportRaises i"]
    by (simp add: run_events_snoc)
  from bound cons H T show ?thesis by blast
qed

theorem concurrency_gate_bound_witness:
  "run_events (start 1 3) [Enter 0, Enter 1, LimiterRaises 0, Enter 1, Admit 1]
     = \<lparr>sem_value = 0, phases = [Finished, InTransport, Waiting]\<rparr>
   \<and> in_phase InTransport \<lparr>sem_value = 0, phases = [Finished, InTransport, Waiting]\<rparr> \<le> 1
   \<and> run_events (start 1 3) ([Enter 0, Enter 1, LimiterRaises 0, Enter 1, Admit 1] @ [TransportRaises 1])
     = \<lparr>sem_value = 1, phases = [Finished, Finished, Waiting]\<rparr>
   \<and> run_events (start 1 3) [Enter 0] = \<lparr>sem_value = 0, phases = [Holding, Waiting, Waiting]\<rparr>
   \<and> run_events (start 1 3) ([Enter 0] @ [LimiterRaises 0])
     = \<lparr>sem_value = 1, phases = [Finished, Waiting, Waiting]\<rparr>"
proof -
  have h: "run_events (start 1 3) [Enter 0, Enter 1, LimiterRaises 0, Enter 1, Admit 1]
     = \<lparr>sem_value = 0, phases = [Finished, InTransport, Waiting]\<rparr>"
    by code_simp
  have h': "run_events (start 1 3) ([Enter 0, Enter 1, LimiterRaises 0, Enter 1, Admit 1] @ [TransportRaises 1])
     = \<lparr>sem_value = 1, phases = [Finished, Finished, Waiting]\<rparr>"
    by code_simp
  have k: "run_events (start 1 3) [Enter 0] = \<lparr>sem_value = 0, phases = [Holding, Waiting, Waiting]\<rparr>"
    by code_simp
  have k': "run_events (start 1 3) ([Enter 0] @ [LimiterRaises 0])
     = \<lparr>sem_value = 1, phases = [Finished, Waiting, Waiting]\<rparr>"
    by code_simp
  from concurrency_gate_bound[of 1 3 "[Enter 0, Enter 1, LimiterRaises 0, Enter 1, Admit 1]"]
    concurrency_gate_bound[of 1 3 "[Enter 0]"] h h' k k'
  show ?thesis by simp
qed

section \<open>Construction performs no validation of its own\<close>

text \<open>
  C9, as the code has it. Construction fails exactly when \<open>max_concurrent_requests\<close> is
  negative, with the \<open>ValueError\<close> of the semaphore. Every other pair of capacities is
  accepted, also \<open>max_concurrent_requests = 0\<close> and \<open>requests_per_second \<le> 0\<close>; with the
  latter the failure comes later, as the \<open>IndexError\<close> of \<open>acquire\<close>.
\<close>

theorem construction_checks_only_the_semaphore:
  "(GithubReposScrapper_init access_token max_concurrent_requests requests_per_second = Inl ValueError)
     = (max_concurrent_requests < 0)
   \<and> (0 \<le> max_concurrent_requests \<longrightarrow>
        GithubReposScrapper_init access_token max_concurrent_requests requests_per_second =
          Inr \<lparr>authorization = ''Bearer '' @ access_token, semaphore = nat max_concurrent_requests,
               rate_limiter = \<lparr>max_requests_per_second = requests_per_second, requests = []\<rparr>\<rparr>)
   \<and> (requests_per_second \<le> 0 \<longrightarrow>
        fst (acquire (RateLimiter_init requests_per_second) now now') = Inl IndexError)"
  by (simp add: GithubReposScrapper_init_def Semaphore_init_def RateLimiter_init_def acquire_def
      prune_def)

text \<open>
  C9 as stated fails: capacities of zero, and a negative \<open>requests_per_second\<close>, are
  accepted at construction.
\<close>

theorem construction_accepts_zero_capacities:
  "GithubReposScrapper_init ''token'' 0 0 =
     Inr \<lparr>authorization = ''Bearer token'', semaphore = 0,
          rate_limiter = \<lparr>max_requests_per_second = 0, requests = []\<rparr>\<rparr>
   \<and> GithubReposScrapper_init ''token'' 10 (- 5) =
     Inr \<lparr>authorization = ''Bearer token'', semaphore = 10,
          rate_limiter = \<lparr>max_requests_per_second = - 5, requests = []\<rparr>\<rparr>"
  by (simp add: GithubReposScrapper_init_def Semaphore_init_def RateLimiter_init_def)

theorem construction_checks_only_the_semaphore_witness:
  "GithubReposScrapper_init ''token'' (- 1) 30 = Inl ValueError
   \<and> GithubReposScrapper_init ''token'' 10 0 =
       Inr \<lparr>authorization = ''Bearer token'', semaphore = 10,
            rate_limiter = \<lparr>max_requests_per_second = 0, requests = []\<rparr>\<rparr>
   \<and> fst (acquire (RateLimiter_init 0) 0 0) = Inl IndexError"
  using construction_checks_only_the_semaphore[of "''token''" "- 1" 30]
    construction_checks_only_the_semaphore[of "''token''" 10 0 0 0]
  by simp

end
